theory Spec2Isabelle
  imports Main
begin

section \<open>REG\_MULTI\_SZ converter: data model\<close>

text \<open>
  Embedding of \<^verbatim>\<open>RegMultiSzConverter\<close>
  (\<^verbatim>\<open>src/registry/Experimental/fontlink/reg_multi_sz_converter.py\<close>).

  A Python \<^verbatim>\<open>str\<close> is a sequence of Unicode code points
  (\<open>0 .. 0x10FFFF\<close>, lone surrogates included), so a string is a list of naturals;
  a \<^verbatim>\<open>bytearray\<close> is a list of naturals below 256.  Every \<^verbatim>\<open>raise\<close> of the
  source, and every exception of a library call that the source lets escape, is a
  constructor of \<open>error\<close>.
\<close>

type_synonym pystr = "nat list"

definition ascii :: "string \<Rightarrow> pystr" where
  "ascii s = map of_char s"

datatype error =
    EmptyStringList                \<comment> \<open>\<^verbatim>\<open>ValueError\<close>, line 90\<close>
  | UnsupportedStyle pystr         \<comment> \<open>\<^verbatim>\<open>ValueError\<close>, line 120, with the style\<close>
  | InvalidHexData pystr           \<comment> \<open>\<^verbatim>\<open>ValueError\<close>, line 61, with the fragment\<close>
  | Utf16DecodeFailed              \<comment> \<open>\<^verbatim>\<open>ValueError\<close>, line 66\<close>
  | Utf16EncodeFailed nat          \<comment> \<open>\<^verbatim>\<open>UnicodeEncodeError\<close> escaping line 94\<close>

text \<open>The argument \<^verbatim>\<open>strings: Union[List[str], str]\<close> of the encoder.\<close>

datatype strings_arg = SingleStr pystr | StrList "pystr list"

subsection \<open>Library functions of Python used by the source\<close>

text \<open>
  \<^verbatim>\<open>str.isspace\<close> on one character, which is also the class \<^verbatim>\<open>\s\<close> of \<^verbatim>\<open>re\<close>
  on \<^verbatim>\<open>str\<close> patterns and the set that \<^verbatim>\<open>str.strip()\<close> removes.
\<close>

definition is_space :: "nat \<Rightarrow> bool" where
  "is_space c \<longleftrightarrow>
     (9 \<le> c \<and> c \<le> 13) \<or> (28 \<le> c \<and> c \<le> 32) \<or> c = 0x85 \<or> c = 0xA0 \<or> c = 0x1680 \<or>
     (0x2000 \<le> c \<and> c \<le> 0x200A) \<or> c = 0x2028 \<or> c = 0x2029 \<or> c = 0x202F \<or>
     c = 0x205F \<or> c = 0x3000"

text \<open>\<^verbatim>\<open>sep.join(xs)\<close>.\<close>

fun py_join :: "'a list \<Rightarrow> 'a list list \<Rightarrow> 'a list" where
  "py_join sep [] = []"
| "py_join sep [x] = x"
| "py_join sep (x # y # ys) = x @ sep @ py_join sep (y # ys)"

text \<open>\<^verbatim>\<open>s.split(sep)\<close> for a separator of one character.\<close>

fun py_split :: "'a \<Rightarrow> 'a list \<Rightarrow> 'a list list" where
  "py_split sep [] = [[]]"
| "py_split sep (c # cs) =
     (if c = sep then [] # py_split sep cs
      else (case py_split sep cs of [] \<Rightarrow> [[c]] | f # fs \<Rightarrow> (c # f) # fs))"

text \<open>\<^verbatim>\<open>s.strip()\<close> and \<^verbatim>\<open>s.rstrip('\x00')\<close>.\<close>

definition py_strip :: "pystr \<Rightarrow> pystr" where
  "py_strip s = rev (dropWhile is_space (rev (dropWhile is_space s)))"

definition rstrip_nul :: "pystr \<Rightarrow> pystr" where
  "rstrip_nul s = rev (dropWhile (\<lambda>c. c = 0) (rev s))"

subsubsection \<open>The codec \<^verbatim>\<open>utf-16le\<close>, strict error handling\<close>

definition is_surrogate :: "nat \<Rightarrow> bool" where
  "is_surrogate c \<longleftrightarrow> 0xD800 \<le> c \<and> c \<le> 0xDFFF"

text \<open>The two bytes of a 16-bit code unit, low byte first.\<close>

definition unit_bytes :: "nat \<Rightarrow> nat list" where
  "unit_bytes u = [u mod 256, u div 256 mod 256]"

definition char_bytes :: "nat \<Rightarrow> nat list" where
  "char_bytes c =
     (if c < 0x10000 then unit_bytes c
      else unit_bytes (0xD800 + (c - 0x10000) div 1024) @
           unit_bytes (0xDC00 + (c - 0x10000) mod 1024))"

text \<open>\<^verbatim>\<open>s.encode('utf-16le')\<close>: a surrogate code point raises \<^verbatim>\<open>UnicodeEncodeError\<close>.\<close>

fun utf16le_encode :: "pystr \<Rightarrow> error + nat list" where
  "utf16le_encode [] = Inr []"
| "utf16le_encode (c # cs) =
     (if is_surrogate c then Inl (Utf16EncodeFailed c)
      else (case utf16le_encode cs of
              Inl e \<Rightarrow> Inl e
            | Inr bs \<Rightarrow> Inr (char_bytes c @ bs)))"

text \<open>
  \<^verbatim>\<open>byte_array.decode('utf-16le')\<close>: an odd trailing byte, a lone low surrogate and a
  high surrogate without a low one after it raise \<^verbatim>\<open>UnicodeDecodeError\<close>, which line 65
  turns into the \<^verbatim>\<open>ValueError\<close> of line 66.
\<close>

fun utf16le_decode :: "nat list \<Rightarrow> error + pystr" where
  "utf16le_decode [] = Inr []"
| "utf16le_decode [b] = Inl Utf16DecodeFailed"
| "utf16le_decode (lo # hi # bs) =
     (let u = lo + 256 * hi in
      if \<not> is_surrogate u then
        (case utf16le_decode bs of Inl e \<Rightarrow> Inl e | Inr s \<Rightarrow> Inr (u # s))
      else if u \<le> 0xDBFF then
        (case bs of
           lo2 # hi2 # bs2 \<Rightarrow>
             (let u2 = lo2 + 256 * hi2 in
              if 0xDC00 \<le> u2 \<and> u2 \<le> 0xDFFF then
                (case utf16le_decode bs2 of
                   Inl e \<Rightarrow> Inl e
                 | Inr s \<Rightarrow> Inr ((0x10000 + (u - 0xD800) * 1024 + (u2 - 0xDC00)) # s))
              else Inl Utf16DecodeFailed)
         | _ \<Rightarrow> Inl Utf16DecodeFailed)
      else Inl Utf16DecodeFailed)"

subsubsection \<open>\<^verbatim>\<open>int(s, 16)\<close>\<close>

text \<open>
  \<^verbatim>\<open>int(s, 16)\<close> on a \<^verbatim>\<open>str\<close> first maps every non-ASCII character to ASCII (a
  Unicode space to a blank, a Unicode decimal digit to its ASCII digit, anything else to
  \<^verbatim>\<open>?\<close>) and then reads: blanks, an optional sign, an optional \<^verbatim>\<open>0x\<close>, hexadecimal
  digits with single underscores between them, blanks.  The first code point of each run
  of ten decimal digits of the Unicode database (version 14, Python 3.11) is listed in
  \<open>decimal_zeros\<close>.
\<close>

definition decimal_zeros :: "nat list" where
  "decimal_zeros =
     [0x660, 0x6F0, 0x7C0, 0x966, 0x9E6, 0xA66, 0xAE6, 0xB66,
      0xBE6, 0xC66, 0xCE6, 0xD66, 0xDE6, 0xE50, 0xED0, 0xF20,
      0x1040, 0x1090, 0x17E0, 0x1810, 0x1946, 0x19D0, 0x1A80, 0x1A90,
      0x1B50, 0x1BB0, 0x1C40, 0x1C50, 0xA620, 0xA8D0, 0xA900, 0xA9D0,
      0xA9F0, 0xAA50, 0xABF0, 0xFF10, 0x104A0, 0x10D30, 0x11066, 0x110F0,
      0x11136, 0x111D0, 0x112F0, 0x11450, 0x114D0, 0x11650, 0x116C0, 0x11730,
      0x118E0, 0x11950, 0x11C50, 0x11D50, 0x11DA0, 0x16A60, 0x16AC0, 0x16B50,
      0x1D7CE, 0x1D7D8, 0x1D7E2, 0x1D7EC, 0x1D7F6, 0x1E140, 0x1E2F0, 0x1E950,
      0x1FBF0]"

definition unicode_decimal :: "nat \<Rightarrow> nat option" where
  "unicode_decimal c =
     (case filter (\<lambda>z. z \<le> c \<and> c < z + 10) decimal_zeros of
        [] \<Rightarrow> None
      | z # _ \<Rightarrow> Some (c - z))"

definition to_ascii_decimal :: "pystr \<Rightarrow> pystr" where
  "to_ascii_decimal s =
     (if list_all (\<lambda>c. c < 128) s then s
      else map (\<lambda>c. if c < 127 then c
                     else if is_space c then 32
                     else (case unicode_decimal c of None \<Rightarrow> 63 | Some d \<Rightarrow> 48 + d)) s)"

definition c_isspace :: "nat \<Rightarrow> bool" where
  "c_isspace c \<longleftrightarrow> c = 32 \<or> (9 \<le> c \<and> c \<le> 13)"

definition hex_digit_value :: "nat \<Rightarrow> nat option" where
  "hex_digit_value c =
     (if 48 \<le> c \<and> c \<le> 57 then Some (c - 48)
      else if 97 \<le> c \<and> c \<le> 102 then Some (c - 87)
      else if 65 \<le> c \<and> c \<le> 70 then Some (c - 55)
      else None)"

text \<open>
  The digit scan: the flag says that the previous character was an underscore; the result
  is the number of digits, their value and the unread rest, or \<open>None\<close> for a doubled or
  trailing underscore.
\<close>

fun scan_digits :: "bool \<Rightarrow> nat \<Rightarrow> nat \<Rightarrow> pystr \<Rightarrow> (nat \<times> nat \<times> pystr) option" where
  "scan_digits prev_us n acc [] = (if prev_us then None else Some (n, acc, []))"
| "scan_digits prev_us n acc (c # cs) =
     (if c = 95 then (if prev_us then None else scan_digits True n acc cs)
      else (case hex_digit_value c of
              Some d \<Rightarrow> scan_digits False (Suc n) (16 * acc + d) cs
            | None \<Rightarrow> (if prev_us then None else Some (n, acc, c # cs))))"

definition skip_sign :: "pystr \<Rightarrow> int \<times> pystr" where
  "skip_sign s =
     (case s of
        [] \<Rightarrow> (1, [])
      | c # cs \<Rightarrow> (if c = 43 then (1, cs) else if c = 45 then (- 1, cs) else (1, s)))"

definition skip_0x :: "pystr \<Rightarrow> pystr" where
  "skip_0x s =
     (case s of
        a # b # cs \<Rightarrow>
          (if a = 48 \<and> (b = 120 \<or> b = 88)
           then (case cs of [] \<Rightarrow> [] | u # us \<Rightarrow> (if u = 95 then us else cs))
           else s)
      | _ \<Rightarrow> s)"

definition py_int16 :: "pystr \<Rightarrow> int option" where
  "py_int16 s =
     (let (sign, t) = skip_sign (dropWhile c_isspace (to_ascii_decimal s));
          ds = skip_0x t
      in case ds of
           [] \<Rightarrow> None
         | c # _ \<Rightarrow>
             (if c = 95 then None
              else (case scan_digits False 0 0 ds of
                      None \<Rightarrow> None
                    | Some (n, v, rest) \<Rightarrow>
                        (if n = 0 then None
                         else if dropWhile c_isspace rest = [] then Some (sign * int v)
                         else None))))"

text \<open>
  \<^verbatim>\<open>byte_array.append(int(hex_byte, 16))\<close>: \<^verbatim>\<open>int\<close> raises \<^verbatim>\<open>ValueError\<close> on a
  malformed literal and \<^verbatim>\<open>append\<close> raises \<^verbatim>\<open>ValueError\<close> outside \<^verbatim>\<open>range(0, 256)\<close>.
\<close>

definition byte_of :: "pystr \<Rightarrow> nat option" where
  "byte_of hex_byte =
     (case py_int16 hex_byte of
        None \<Rightarrow> None
      | Some v \<Rightarrow> (if 0 \<le> v \<and> v < 256 then Some (nat v) else None))"

subsubsection \<open>\<^verbatim>\<open>f"{b:02x}"\<close> on a byte\<close>

definition hex_char :: "nat \<Rightarrow> nat" where
  "hex_char d = (if d < 10 then 48 + d else 87 + d)"

definition hex2 :: "nat \<Rightarrow> pystr" where
  "hex2 b = [hex_char (b div 16), hex_char (b mod 16)]"

section \<open>The encoder\<close>

text \<open>
  The loop of lines 105 to 116 over \<^verbatim>\<open>enumerate(hex_bytes)\<close>; the state is
  \<^verbatim>\<open>(result, line_length)\<close>, and \<^verbatim>\<open>max_line_length\<close> is 75.  The continuation written
  at line 112 is a comma, a backslash, a newline and two blanks.
\<close>

definition max_line_length :: nat where
  "max_line_length = 75"

definition continuation :: pystr where
  "continuation = [44, 92, 10, 32, 32]"

fun regedit_loop :: "nat \<Rightarrow> pystr list \<Rightarrow> pystr \<times> nat \<Rightarrow> pystr \<times> nat" where
  "regedit_loop i [] st = st"
| "regedit_loop i (hex_byte # rest) (result, line_length) =
     regedit_loop (Suc i) rest
       (if i = 0 then (result @ hex_byte, line_length + length hex_byte)
        else (let addition = 44 # hex_byte in
              if line_length + length addition > max_line_length
              then (result @ continuation @ hex_byte, 2 + length hex_byte)
              else (result @ addition, line_length + length addition)))"

definition encode_to_hex_string :: "strings_arg \<Rightarrow> pystr \<Rightarrow> error + pystr" where
  "encode_to_hex_string arg format_style =
     (let strings = (case arg of SingleStr s \<Rightarrow> [s] | StrList l \<Rightarrow> l) in
      if strings = [] then Inl EmptyStringList
      else (case utf16le_encode (py_join [0] strings @ [0, 0]) of
              Inl e \<Rightarrow> Inl e
            | Inr byte_data \<Rightarrow>
                (let hex_bytes = map hex2 byte_data in
                 if format_style = ascii ''compact''
                 then Inr (ascii ''hex(7):'' @ py_join [44] hex_bytes)
                 else if format_style = ascii ''regedit''
                 then Inr (fst (regedit_loop 0 hex_bytes (ascii ''hex(7):'', 7)))
                 else Inl (UnsupportedStyle format_style))))"

section \<open>The decoder\<close>

text \<open>
  Line 46, \<^verbatim>\<open>re.sub(r'^hex\(7\):\s*', '', hex_string, flags=re.IGNORECASE)\<close>: without
  \<^verbatim>\<open>re.MULTILINE\<close> the anchor matches at position 0 only, and only the letters
  \<^verbatim>\<open>h e x\<close> have another case.
\<close>

definition has_tag :: "pystr \<Rightarrow> bool" where
  "has_tag s \<longleftrightarrow>
     (case s of
        h # e # x # c3 # c4 # c5 # c6 # _ \<Rightarrow>
          (h = 104 \<or> h = 72) \<and> (e = 101 \<or> e = 69) \<and> (x = 120 \<or> x = 88) \<and>
          c3 = 40 \<and> c4 = 55 \<and> c5 = 41 \<and> c6 = 58
      | _ \<Rightarrow> False)"

definition sub_tag :: "pystr \<Rightarrow> pystr" where
  "sub_tag s = (if has_tag s then dropWhile is_space (drop 7 s) else s)"

text \<open>
  Line 48, \<^verbatim>\<open>re.sub(r'\\\s*\n\s*', '', hex_data)\<close>: a backslash and the whole run of
  whitespace after it, when that run holds a newline.
\<close>

function sub_continuation :: "pystr \<Rightarrow> pystr" where
  "sub_continuation [] = []"
| "sub_continuation (c # cs) =
     (if c = 92 \<and> 10 \<in> set (takeWhile is_space cs)
      then sub_continuation (dropWhile is_space cs)
      else c # sub_continuation cs)"
  by pat_completeness auto
termination
  by (relation "measure length") (auto simp: length_dropWhile_le less_Suc_eq_le)

text \<open>
  Line 49, \<^verbatim>\<open>re.sub(r'\\\s*$', '', hex_data, flags=re.MULTILINE)\<close>: a backslash and
  the whitespace after it up to the end of the text or, failing that, up to the last
  newline of the run (the newline stays).
\<close>

definition last_newline :: "pystr \<Rightarrow> nat" where
  "last_newline w = length w - 1 - length (takeWhile (\<lambda>c. c \<noteq> 10) (rev w))"

function sub_line_end :: "pystr \<Rightarrow> pystr" where
  "sub_line_end [] = []"
| "sub_line_end (c # cs) =
     (if c = 92 then
        (let w = takeWhile is_space cs in
         if length w = length cs then []
         else if 10 \<in> set w then sub_line_end (drop (last_newline w) cs)
         else c # sub_line_end cs)
      else c # sub_line_end cs)"
  by pat_completeness auto
termination
  by (relation "measure length") auto

text \<open>Lines 46 to 51: the text left when the tag, the continuations and the whitespace are gone.\<close>

definition hex_data_of :: "pystr \<Rightarrow> pystr" where
  "hex_data_of hex_string =
     (let hex_data = sub_tag hex_string;
          hex_data = sub_continuation hex_data;
          hex_data = sub_line_end hex_data
      in filter (\<lambda>c. \<not> is_space c) hex_data)"

text \<open>Line 53: the fragments that reach the parsing loop.\<close>

definition hex_fragments :: "pystr \<Rightarrow> pystr list" where
  "hex_fragments hex_string =
     filter (\<lambda>b. b \<noteq> []) (map py_strip (py_split 44 (hex_data_of hex_string)))"

text \<open>Lines 55 to 61: the first fragment that raises ends the loop.\<close>

fun parse_loop :: "pystr list \<Rightarrow> nat list \<Rightarrow> error + nat list" where
  "parse_loop [] byte_array = Inr byte_array"
| "parse_loop (hex_byte # rest) byte_array =
     (if hex_byte \<noteq> [] then
        (case byte_of hex_byte of
           None \<Rightarrow> Inl (InvalidHexData hex_byte)
         | Some b \<Rightarrow> parse_loop rest (byte_array @ [b]))
      else parse_loop rest byte_array)"

definition parse_hex_bytes :: "pystr \<Rightarrow> error + nat list" where
  "parse_hex_bytes hex_string = parse_loop (hex_fragments hex_string) []"

text \<open>Lines 68 to 70.\<close>

definition split_strings :: "pystr \<Rightarrow> pystr list" where
  "split_strings decoded_string =
     filter (\<lambda>s. s \<noteq> []) (py_split 0 (rstrip_nul decoded_string))"

definition decode_hex_string :: "pystr \<Rightarrow> error + pystr list" where
  "decode_hex_string hex_string =
     (case parse_hex_bytes hex_string of
        Inl e \<Rightarrow> Inl e
      | Inr byte_array \<Rightarrow>
          (case utf16le_decode byte_array of
             Inl e \<Rightarrow> Inl e
           | Inr decoded_string \<Rightarrow> Inr (split_strings decoded_string)))"

section \<open>Notions used to state the properties\<close>

text \<open>Encoding a list in a style and decoding the text that comes out.\<close>

definition decode_after_encode :: "pystr list \<Rightarrow> pystr \<Rightarrow> error + pystr list" where
  "decode_after_encode strings format_style =
     (case encode_to_hex_string (StrList strings) format_style of
        Inl e \<Rightarrow> Inl e
      | Inr hex_text \<Rightarrow> decode_hex_string hex_text)"

text \<open>
  A code point that \<^verbatim>\<open>utf-16le\<close> can encode: a code point of a Python string that is
  not a surrogate.
\<close>

definition encodable :: "nat \<Rightarrow> bool" where
  "encodable c \<longleftrightarrow> c < 0x110000 \<and> \<not> is_surrogate c"

text \<open>The lengths of the physical lines of a text.\<close>

definition line_lengths :: "pystr \<Rightarrow> nat list" where
  "line_lengths t = map length (py_split 10 t)"

text \<open>
  Removing every occurrence of a marker from a text, left to right, and then all
  whitespace: the operation of the wrap-correctness property.
\<close>

function remove_all :: "pystr \<Rightarrow> pystr \<Rightarrow> pystr" where
  "remove_all marker [] = []"
| "remove_all marker (c # cs) =
     (if marker \<noteq> [] \<and> take (length marker) (c # cs) = marker
      then remove_all marker (drop (length marker) (c # cs))
      else c # remove_all marker cs)"
  by pat_completeness auto
termination
  by (relation "measure (\<lambda>(marker, t). length t)") auto

definition strip_markers :: "pystr \<Rightarrow> pystr \<Rightarrow> pystr" where
  "strip_markers marker t = filter (\<lambda>c. \<not> is_space c) (remove_all marker t)"

text \<open>
  The entries of a multi-string text: its maximal runs of characters other than the null
  character, in their order.
\<close>

function entries_of :: "pystr \<Rightarrow> pystr list" where
  "entries_of [] = []"
| "entries_of (c # cs) =
     (if c = 0 then entries_of cs
      else takeWhile (\<lambda>x. x \<noteq> 0) (c # cs) # entries_of (dropWhile (\<lambda>x. x \<noteq> 0) cs))"
  by pat_completeness auto
termination
  by (relation "measure length") (auto simp: length_dropWhile_le less_Suc_eq_le)

text \<open>
  The continuation of line 112 without its comma: a backslash, a newline and the indent of
  two blanks.
\<close>

definition backslash_newline_indent :: pystr where
  "backslash_newline_indent = [92, 10, 32, 32]"

text \<open>A byte group of exactly two hexadecimal digits, and the byte it denotes.\<close>

definition hex_pair_value :: "pystr \<Rightarrow> nat option" where
  "hex_pair_value g =
     (case g of
        [a, b] \<Rightarrow>
          (case (hex_digit_value a, hex_digit_value b) of
             (Some x, Some y) \<Rightarrow> Some (16 * x + y)
           | _ \<Rightarrow> None)
      | _ \<Rightarrow> None)"

section \<open>Evaluation on concrete inputs\<close>

lemmas eval_defs =
  ascii_def is_space_def py_strip_def rstrip_nul_def is_surrogate_def unit_bytes_def
  char_bytes_def to_ascii_decimal_def c_isspace_def hex_digit_value_def skip_sign_def
  skip_0x_def py_int16_def byte_of_def hex_char_def hex2_def max_line_length_def
  continuation_def encode_to_hex_string_def has_tag_def sub_tag_def last_newline_def
  hex_data_of_def hex_fragments_def parse_hex_bytes_def split_strings_def decode_hex_string_def
  decode_after_encode_def line_lengths_def strip_markers_def hex_pair_value_def
  backslash_newline_indent_def encodable_def Let_def

section \<open>Hexadecimal digits and byte groups\<close>

lemma hex_digit_value_hex_char: "d < 16 \<Longrightarrow> hex_digit_value (hex_char d) = Some d"
  by (auto simp: hex_digit_value_def hex_char_def)

lemma hex_digit_range:
  "hex_digit_value c = Some d \<Longrightarrow> d < 16 \<and> 48 \<le> c \<and> c \<le> 102"
  by (auto simp: hex_digit_value_def split: if_splits)

lemma hex_digit_not_space: "hex_digit_value c = Some d \<Longrightarrow> \<not> is_space c"
  by (auto simp: hex_digit_value_def is_space_def split: if_splits)

lemma scan_two_digits:
  "hex_digit_value a = Some x \<Longrightarrow> hex_digit_value b = Some y \<Longrightarrow>
   scan_digits False 0 0 [a, b] = Some (2, 16 * x + y, [])"
  by (auto simp: hex_digit_value_def split: if_splits)

lemma byte_of_pair:
  assumes a: "hex_digit_value a = Some x" and b: "hex_digit_value b = Some y"
  shows "byte_of [a, b] = Some (16 * x + y)"
proof -
  from a b have r: "x < 16" "y < 16" "48 \<le> a" "a \<le> 102" "48 \<le> b" "b \<le> 102"
    using hex_digit_range by blast+
  from b have bx: "b \<noteq> 120" "b \<noteq> 88"
    by (auto simp: hex_digit_value_def split: if_splits)
  from r have asc: "to_ascii_decimal [a, b] = [a, b]"
    by (simp add: to_ascii_decimal_def)
  from r have sp: "\<not> c_isspace a"
    by (simp add: c_isspace_def)
  from r have sg: "skip_sign [a, b] = (1, [a, b])"
    by (simp add: skip_sign_def)
  from bx have px: "skip_0x [a, b] = [a, b]"
    by (simp add: skip_0x_def)
  from a have us: "a \<noteq> 95"
    by (auto simp: hex_digit_value_def split: if_splits)
  have "py_int16 [a, b] = Some (int (16 * x + y))"
    using scan_two_digits [OF a b] us
    by (simp add: py_int16_def asc sp sg px del: scan_digits.simps)
  with r show ?thesis by (simp add: byte_of_def)
qed

lemma byte_of_hex2: "b < 256 \<Longrightarrow> byte_of (hex2 b) = Some b"
proof -
  assume b: "b < 256"
  then have "b div 16 < 16" "b mod 16 < 16" by simp_all
  then have "byte_of (hex2 b) = Some (16 * (b div 16) + b mod 16)"
    unfolding hex2_def by (intro byte_of_pair hex_digit_value_hex_char)
  then show ?thesis by simp
qed

section \<open>The substitutions on text without backslash or whitespace\<close>

lemma sub_continuation_append:
  "92 \<notin> set xs \<Longrightarrow> sub_continuation (xs @ ys) = xs @ sub_continuation ys"
  by (induction xs) auto

lemma sub_continuation_id: "92 \<notin> set xs \<Longrightarrow> sub_continuation xs = xs"
  using sub_continuation_append [of xs "[]"] by simp

lemma sub_line_end_append:
  "92 \<notin> set xs \<Longrightarrow> sub_line_end (xs @ ys) = xs @ sub_line_end ys"
  by (induction xs) auto

lemma sub_line_end_id: "92 \<notin> set xs \<Longrightarrow> sub_line_end xs = xs"
  using sub_line_end_append [of xs "[]"] by simp

lemma filter_no_space: "\<forall>c \<in> set xs. \<not> is_space c \<Longrightarrow> filter (\<lambda>c. \<not> is_space c) xs = xs"
  by (induction xs) auto

lemma dropWhile_none: "\<forall>c \<in> set xs. \<not> P c \<Longrightarrow> dropWhile P xs = xs"
  by (cases xs) auto

lemma py_strip_no_space: "\<forall>c \<in> set xs. \<not> is_space c \<Longrightarrow> py_strip xs = xs"
  by (simp add: py_strip_def dropWhile_none)

lemma py_split_no_sep: "sep \<notin> set g \<Longrightarrow> py_split sep g = [g]"
  by (induction g) auto

lemma py_split_append:
  "sep \<notin> set g \<Longrightarrow> py_split sep (g @ sep # rest) = g # py_split sep rest"
  by (induction g) auto

lemma py_split_join_cons:
  "\<forall>g \<in> set (x # gs). sep \<notin> set g \<Longrightarrow> py_split sep (py_join [sep] (x # gs)) = x # gs"
proof (induction gs arbitrary: x)
  case Nil
  then show ?case by (simp add: py_split_no_sep)
next
  case (Cons y ys)
  then have "py_split sep (py_join [sep] (y # ys)) = y # ys" by simp
  with Cons.prems show ?case by (simp add: py_split_append)
qed

lemma py_split_join:
  "gs \<noteq> [] \<Longrightarrow> \<forall>g \<in> set gs. sep \<notin> set g \<Longrightarrow> py_split sep (py_join [sep] gs) = gs"
  by (cases gs) (simp_all add: py_split_join_cons)

lemma py_split_nonempty: "py_split sep s \<noteq> []"
  by (induction s) (auto split: list.splits)

lemma py_split_chars: "g \<in> set (py_split sep s) \<Longrightarrow> set g \<subseteq> set s"
proof (induction s arbitrary: g)
  case Nil
  then show ?case by simp
next
  case (Cons c cs)
  obtain f fs where sp: "py_split sep cs = f # fs"
    using py_split_nonempty [of sep cs] by (cases "py_split sep cs") auto
  have f: "set f \<subseteq> set cs" using Cons.IH [of f] sp by simp
  have fs: "\<And>h. h \<in> set fs \<Longrightarrow> set h \<subseteq> set cs" using Cons.IH sp by simp
  show ?case
  proof (cases "c = sep")
    case True
    with Cons.prems sp have "g = [] \<or> g = f \<or> g \<in> set fs" by auto
    with f fs show ?thesis by auto
  next
    case False
    with Cons.prems sp have "g = c # f \<or> g \<in> set fs" by auto
    with f fs show ?thesis by auto
  qed
qed

lemma py_split_head:
  "c \<noteq> sep \<Longrightarrow> \<exists>f fs. py_split sep (c # cs) = (c # f) # fs"
  using py_split_nonempty [of sep cs] by (cases "py_split sep cs") auto

section \<open>Joined byte groups\<close>

lemma set_py_join: "set (py_join sep gs) \<subseteq> set sep \<union> \<Union> (set ` set gs)"
  by (induction sep gs rule: py_join.induct) auto

lemma last_py_join:
  "gs \<noteq> [] \<Longrightarrow> last gs \<noteq> [] \<Longrightarrow> py_join sep gs \<noteq> [] \<and> last (py_join sep gs) = last (last gs)"
  by (induction sep gs rule: py_join.induct) auto

lemma hd_py_join:
  "gs \<noteq> [] \<Longrightarrow> hd gs \<noteq> [] \<Longrightarrow> py_join sep gs \<noteq> [] \<and> hd (py_join sep gs) = hd (hd gs)"
  by (induction sep gs rule: py_join.induct) auto

lemma has_tag_head: "has_tag s \<Longrightarrow> s \<noteq> [] \<and> (hd s = 104 \<or> hd s = 72)"
  by (auto simp: has_tag_def split: list.splits)

lemma has_tag_ascii: "has_tag (ascii ''hex(7):'' @ t)"
  by (simp add: has_tag_def ascii_def)

lemma hex_data_of_untagged:
  assumes "\<not> has_tag t" and "92 \<notin> set t" and "\<forall>c \<in> set t. \<not> is_space c"
  shows "hex_data_of t = t"
  using assms
  by (simp add: hex_data_of_def sub_tag_def sub_continuation_id sub_line_end_id filter_no_space)

lemma hex_data_of_tagged:
  assumes "92 \<notin> set t" and "\<forall>c \<in> set t. \<not> is_space c"
  shows "hex_data_of (ascii ''hex(7):'' @ t) = t"
proof -
  have "sub_tag (ascii ''hex(7):'' @ t) = dropWhile is_space t"
    using has_tag_ascii [of t] by (simp add: sub_tag_def ascii_def)
  also have "\<dots> = t" using assms(2) by (rule dropWhile_none)
  finally show ?thesis
    using assms
    by (simp add: hex_data_of_def sub_continuation_id sub_line_end_id filter_no_space)
qed

lemma fragments_of_join:
  assumes ne: "\<forall>g \<in> set gs. g \<noteq> []"
    and clean: "\<forall>g \<in> set gs. \<forall>c \<in> set g. c \<noteq> 44 \<and> \<not> is_space c"
  shows "filter (\<lambda>b. b \<noteq> []) (map py_strip (py_split 44 (py_join [44] gs))) = gs"
proof (cases "gs = []")
  case True
  then show ?thesis by (simp add: py_strip_def)
next
  case False
  from clean have "\<forall>g \<in> set gs. 44 \<notin> set g" by auto
  with False have "py_split 44 (py_join [44] gs) = gs" by (rule py_split_join)
  moreover from clean have "map py_strip gs = gs"
    by (intro map_idI py_strip_no_space) auto
  moreover from ne have "filter (\<lambda>b. b \<noteq> []) gs = gs" by (simp add: filter_id_conv)
  ultimately show ?thesis by simp
qed

section \<open>The codec on byte buffers\<close>

lemma utf16le_decode_odd: "odd (length bs) \<Longrightarrow> utf16le_decode bs = Inl Utf16DecodeFailed"
proof (induction bs rule: utf16le_decode.induct)
  case 1
  then show ?case by simp
next
  case (2 b)
  then show ?case by simp
next
  case (3 lo hi bs)
  from "3.prems" have odd_bs: "odd (length bs)" by simp
  show ?case
  proof (cases "is_surrogate (lo + 256 * hi)")
    case False
    with "3.IH"(1) odd_bs show ?thesis by (simp add: Let_def)
  next
    case surr: True
    show ?thesis
    proof (cases "lo + 256 * hi \<le> 0xDBFF")
      case False
      with surr show ?thesis by (simp add: Let_def)
    next
      case high: True
      show ?thesis
      proof (cases bs)
        case Nil
        with surr high show ?thesis by (simp add: Let_def)
      next
        case (Cons lo2 bs')
        show ?thesis
        proof (cases bs')
          case Nil
          with Cons surr high show ?thesis by (simp add: Let_def)
        next
          case (Cons hi2 bs2)
          with \<open>bs = lo2 # bs'\<close> odd_bs have "odd (length bs2)" by simp
          with "3.IH"(2) [OF refl _ high \<open>bs = lo2 # bs'\<close> [unfolded Cons] refl] surr
          have "0xDC00 \<le> lo2 + 256 * hi2 \<and> lo2 + 256 * hi2 \<le> 0xDFFF \<Longrightarrow>
                utf16le_decode bs2 = Inl Utf16DecodeFailed" by simp
          with Cons \<open>bs = lo2 # bs'\<close> surr high show ?thesis by (simp add: Let_def)
        qed
      qed
    qed
  qed
qed

section \<open>Groups of two hexadecimal digits\<close>

lemma hex_pair_valueD:
  assumes "hex_pair_value g = Some b"
  shows "g \<noteq> []" and "byte_of g = Some b"
    and "\<forall>c \<in> set g. c \<noteq> 44 \<and> c \<noteq> 92 \<and> \<not> is_space c \<and> c \<noteq> 104 \<and> c \<noteq> 72"
proof -
  from assms obtain a c x y where g: "g = [a, c]"
    and a: "hex_digit_value a = Some x" and c: "hex_digit_value c = Some y"
    and b: "b = 16 * x + y"
    by (auto simp: hex_pair_value_def split: list.splits option.splits)
  from g show "g \<noteq> []" by simp
  from g a c b show "byte_of g = Some b" by (simp add: byte_of_pair)
  have "\<And>d v. hex_digit_value d = Some v \<Longrightarrow>
          d \<noteq> 44 \<and> d \<noteq> 92 \<and> \<not> is_space d \<and> d \<noteq> 104 \<and> d \<noteq> 72"
    by (auto simp: hex_digit_value_def is_space_def split: if_splits)
  with g a c show "\<forall>c \<in> set g. c \<noteq> 44 \<and> c \<noteq> 92 \<and> \<not> is_space c \<and> c \<noteq> 104 \<and> c \<noteq> 72"
    by auto
qed

lemma hex_pair_value_hex2: "b < 256 \<Longrightarrow> hex_pair_value (hex2 b) = Some b"
proof -
  assume "b < 256"
  then have "b div 16 < 16" "b mod 16 < 16" by simp_all
  then show ?thesis
    by (simp add: hex_pair_value_def hex2_def hex_digit_value_hex_char)
qed

lemma parse_loop_pairs:
  "map hex_pair_value gs = map Some bs \<Longrightarrow> parse_loop gs acc = Inr (acc @ bs)"
proof (induction gs arbitrary: bs acc)
  case Nil
  then show ?case by simp
next
  case (Cons g gs)
  then obtain b bs' where bs: "bs = b # bs'" and g: "hex_pair_value g = Some b"
    and rest: "map hex_pair_value gs = map Some bs'"
    by (cases bs) auto
  from Cons.IH [OF rest, of "acc @ [b]"] hex_pair_valueD(1,2) [OF g] bs
  show ?case by simp
qed

lemma pairs_clean:
  assumes "map hex_pair_value gs = map Some bs"
  shows "\<forall>g \<in> set gs. g \<noteq> [] \<and> (\<forall>c \<in> set g. c \<noteq> 44 \<and> c \<noteq> 92 \<and> \<not> is_space c \<and> c \<noteq> 104 \<and> c \<noteq> 72)"
proof
  fix g assume "g \<in> set gs"
  then obtain i where i: "i < length gs" "g = gs ! i" by (auto simp: in_set_conv_nth)
  from assms have "length gs = length bs" using map_eq_imp_length_eq by blast
  with i assms have "hex_pair_value g = Some (bs ! i)"
    by (metis nth_map)
  then show "g \<noteq> [] \<and> (\<forall>c \<in> set g. c \<noteq> 44 \<and> c \<noteq> 92 \<and> \<not> is_space c \<and> c \<noteq> 104 \<and> c \<noteq> 72)"
    using hex_pair_valueD(1,3) by blast
qed

lemma join_pairs_clean:
  assumes "map hex_pair_value gs = map Some bs"
  shows "92 \<notin> set (py_join [44] gs)" and "\<forall>c \<in> set (py_join [44] gs). \<not> is_space c"
    and "\<not> has_tag (py_join [44] gs)"
proof -
  note cl = pairs_clean [OF assms]
  have sp44: "\<not> is_space 44" by (simp add: is_space_def)
  show "92 \<notin> set (py_join [44] gs)"
    using set_py_join [of "[44]" gs] cl by fastforce
  show "\<forall>c \<in> set (py_join [44] gs). \<not> is_space c"
    using set_py_join [of "[44]" gs] cl sp44 by fastforce
  show "\<not> has_tag (py_join [44] gs)"
  proof
    assume "has_tag (py_join [44] gs)"
    then have h: "py_join [44] gs \<noteq> []" "hd (py_join [44] gs) = 104 \<or> hd (py_join [44] gs) = 72"
      using has_tag_head by blast+
    then have "hd (py_join [44] gs) \<in> set (py_join [44] gs)" by simp
    with set_py_join [of "[44]" gs] cl h(2) show False by fastforce
  qed
qed

lemma parse_hex_bytes_untagged:
  assumes "map hex_pair_value gs = map Some bs"
  shows "parse_hex_bytes (py_join [44] gs) = Inr bs"
proof -
  note cl = pairs_clean [OF assms]
  have "hex_data_of (py_join [44] gs) = py_join [44] gs"
    using join_pairs_clean [OF assms] by (intro hex_data_of_untagged) auto
  moreover have "filter (\<lambda>b. b \<noteq> []) (map py_strip (py_split 44 (py_join [44] gs))) = gs"
    using cl by (intro fragments_of_join) auto
  ultimately have "hex_fragments (py_join [44] gs) = gs" by (simp add: hex_fragments_def)
  with parse_loop_pairs [OF assms, of "[]"] show ?thesis by (simp add: parse_hex_bytes_def)
qed

lemma parse_hex_bytes_tagged:
  assumes "map hex_pair_value gs = map Some bs"
  shows "parse_hex_bytes (ascii ''hex(7):'' @ py_join [44] gs) = Inr bs"
proof -
  note cl = pairs_clean [OF assms]
  have "hex_data_of (ascii ''hex(7):'' @ py_join [44] gs) = py_join [44] gs"
    using join_pairs_clean [OF assms] by (intro hex_data_of_tagged) auto
  moreover have "filter (\<lambda>b. b \<noteq> []) (map py_strip (py_split 44 (py_join [44] gs))) = gs"
    using cl by (intro fragments_of_join) auto
  ultimately have "hex_fragments (ascii ''hex(7):'' @ py_join [44] gs) = gs"
    by (simp add: hex_fragments_def)
  with parse_loop_pairs [OF assms, of "[]"] show ?thesis by (simp add: parse_hex_bytes_def)
qed

section \<open>Encoding and decoding UTF-16LE\<close>

lemma unit_bytes_plain: "u < 0x10000 \<Longrightarrow> unit_bytes u = [u mod 256, u div 256]"
proof -
  assume "u < 0x10000"
  then have "u div 256 < 256" by arith
  then show ?thesis by (simp add: unit_bytes_def)
qed

lemma unit_bytes_lt: "\<forall>b \<in> set (unit_bytes u). b < 256"
proof -
  have "u mod 256 < 256" "u div 256 mod 256 < 256" by (rule mod_less_divisor, simp)+
  then show ?thesis unfolding unit_bytes_def by simp
qed

lemma char_bytes_lt: "\<forall>b \<in> set (char_bytes c). b < 256"
  using unit_bytes_lt by (auto simp: char_bytes_def)

lemma utf16le_decode_unit:
  assumes "u < 0x10000" and "\<not> is_surrogate u"
  shows "utf16le_decode (unit_bytes u @ bs) =
           (case utf16le_decode bs of Inl e \<Rightarrow> Inl e | Inr s \<Rightarrow> Inr (u # s))"
  using assms by (simp add: unit_bytes_plain Let_def)

lemma utf16le_decode_pair:
  assumes "v < 0x100000"
  shows "utf16le_decode (unit_bytes (0xD800 + v div 1024) @ unit_bytes (0xDC00 + v mod 1024) @ bs) =
           (case utf16le_decode bs of Inl e \<Rightarrow> Inl e | Inr s \<Rightarrow> Inr ((0x10000 + v) # s))"
proof -
  define h where "h = 0xD800 + v div 1024"
  define l where "l = 0xDC00 + v mod 1024"
  from assms have "v div 1024 < 1024" by arith
  then have hr: "0xD800 \<le> h" "h \<le> 0xDBFF" by (simp_all add: h_def)
  have "v mod 1024 < 1024" by (rule mod_less_divisor) simp
  then have lr: "0xDC00 \<le> l" "l \<le> 0xDFFF" by (simp_all add: l_def)
  from hr have hb: "unit_bytes h = [h mod 256, h div 256]" by (intro unit_bytes_plain) simp
  from lr have lb: "unit_bytes l = [l mod 256, l div 256]" by (intro unit_bytes_plain) simp
  have val: "0x10000 + (h - 0xD800) * 1024 + (l - 0xDC00) = 0x10000 + v"
    by (simp add: h_def l_def)
  from hr have hs: "is_surrogate h" by (simp add: is_surrogate_def)
  have "utf16le_decode (h mod 256 # h div 256 # l mod 256 # l div 256 # bs) =
          (case utf16le_decode bs of Inl e \<Rightarrow> Inl e
           | Inr s \<Rightarrow> Inr ((0x10000 + (h - 0xD800) * 1024 + (l - 0xDC00)) # s))"
    using hr lr hs by (cases "utf16le_decode bs") (simp_all add: Let_def mod_mult_div_eq)
  then show ?thesis
    unfolding h_def [symmetric] l_def [symmetric]
    by (cases "utf16le_decode bs") (simp_all add: hb lb val)
qed

lemma utf16le_decode_char_bytes:
  assumes "encodable c"
  shows "utf16le_decode (char_bytes c @ bs) =
           (case utf16le_decode bs of Inl e \<Rightarrow> Inl e | Inr s \<Rightarrow> Inr (c # s))"
proof (cases "c < 0x10000")
  case True
  with assms show ?thesis
    by (simp add: char_bytes_def encodable_def utf16le_decode_unit del: utf16le_decode.simps)
next
  case False
  with assms have "c - 0x10000 < 0x100000" by (auto simp: encodable_def)
  moreover from False have "0x10000 + (c - 0x10000) = c" by simp
  ultimately show ?thesis
    using utf16le_decode_pair [of "c - 0x10000" bs] False
    by (cases "utf16le_decode bs") (simp_all add: char_bytes_def del: utf16le_decode.simps)
qed

lemma utf16le_encode_bytes:
  "\<forall>c \<in> set s. \<not> is_surrogate c \<Longrightarrow> utf16le_encode s = Inr (concat (map char_bytes s))"
  by (induction s) auto

lemma utf16le_encode_lt: "utf16le_encode s = Inr bs \<Longrightarrow> \<forall>b \<in> set bs. b < 256"
proof (induction s arbitrary: bs)
  case Nil
  then show ?case by simp
next
  case (Cons c cs)
  then show ?case
    using char_bytes_lt [of c] by (auto split: if_splits sum.splits)
qed

lemma utf16le_decode_encoded:
  "\<forall>c \<in> set s. encodable c \<Longrightarrow> utf16le_decode (concat (map char_bytes s)) = Inr s"
  by (induction s) (simp_all add: utf16le_decode_char_bytes del: utf16le_decode.simps(3))

lemma rstrip_nul_terminated:
  assumes "x \<noteq> []" and "last x \<noteq> 0"
  shows "rstrip_nul (x @ [0, 0]) = x"
proof -
  from assms obtain y z where x: "x = y @ [z]" and z: "z \<noteq> 0"
    by (cases x rule: rev_cases) auto
  then show ?thesis by (simp add: rstrip_nul_def)
qed

lemma split_strings_joined:
  assumes ne: "strings \<noteq> []" and ok: "\<forall>s \<in> set strings. s \<noteq> [] \<and> 0 \<notin> set s"
  shows "split_strings (py_join [0] strings @ [0, 0]) = strings"
proof -
  from ne ok have l: "last strings \<noteq> []" "0 \<notin> set (last strings)" by auto
  then have "last (last strings) \<noteq> 0" by (metis last_in_set)
  with last_py_join [OF ne l(1), of "[0]"]
  have "rstrip_nul (py_join [0] strings @ [0, 0]) = py_join [0] strings"
    by (intro rstrip_nul_terminated) auto
  moreover from ne ok have "py_split 0 (py_join [0] strings) = strings"
    by (intro py_split_join) auto
  moreover from ok have "filter (\<lambda>s. s \<noteq> []) strings = strings"
    by (simp add: filter_id_conv)
  ultimately show ?thesis by (simp add: split_strings_def)
qed

lemma set_joined_strings:
  "set (py_join [0] strings @ [0, 0]) \<subseteq> {0} \<union> \<Union> (set ` set strings)"
  using set_py_join [of "[0]" strings] by auto

lemma encodable_0: "encodable 0"
  by (simp add: encodable_def is_surrogate_def)

section \<open>The text written by the wrapping loop\<close>

lemma regedit_loop_result:
  "fst (regedit_loop i hs (r, n)) = r @ fst (regedit_loop i hs ([], n))"
proof (induction hs arbitrary: i r n)
  case Nil
  then show ?case by simp
next
  case (Cons h hs)
  define x where "x = (if i = 0 then h
                       else if n + length (44 # h) > max_line_length then continuation @ h
                       else 44 # h)"
  define n' where "n' = (if i = 0 then n + length h
                         else if n + length (44 # h) > max_line_length then 2 + length h
                         else n + length (44 # h))"
  have "regedit_loop i (h # hs) (r, n) = regedit_loop (Suc i) hs (r @ x, n')"
    by (simp add: x_def n'_def Let_def)
  moreover have "regedit_loop i (h # hs) ([], n) = regedit_loop (Suc i) hs (x, n')"
    by (simp add: x_def n'_def Let_def)
  moreover have "fst (regedit_loop (Suc i) hs (r @ x, n')) =
                   (r @ x) @ fst (regedit_loop (Suc i) hs ([], n'))"
    by (rule Cons.IH)
  moreover have "fst (regedit_loop (Suc i) hs (x, n')) = x @ fst (regedit_loop (Suc i) hs ([], n'))"
    by (rule Cons.IH)
  ultimately show ?case by simp
qed

lemma regedit_loop_step:
  "i \<noteq> 0 \<Longrightarrow>
   \<exists>n'. fst (regedit_loop i (h # hs) ([], n)) = 44 # h @ fst (regedit_loop (Suc i) hs ([], n')) \<or>
        fst (regedit_loop i (h # hs) ([], n)) =
          continuation @ h @ fst (regedit_loop (Suc i) hs ([], n'))"
proof -
  assume i: "i \<noteq> 0"
  show ?thesis
  proof (cases "n + length (44 # h) > max_line_length")
    case True
    with i have "regedit_loop i (h # hs) ([], n) =
                   regedit_loop (Suc i) hs (continuation @ h, 2 + length h)"
      by (simp add: Let_def)
    with regedit_loop_result [of "Suc i" hs "continuation @ h" "2 + length h"]
    show ?thesis by auto
  next
    case False
    with i have "regedit_loop i (h # hs) ([], n) =
                   regedit_loop (Suc i) hs (44 # h, n + length (44 # h))"
      by (simp add: Let_def)
    with regedit_loop_result [of "Suc i" hs "44 # h" "n + length (44 # h)"]
    show ?thesis by auto
  qed
qed

lemma regedit_loop_first:
  "fst (regedit_loop 0 (h # hs) (r, n)) = r @ h @ fst (regedit_loop (Suc 0) hs ([], n + length h))"
  using regedit_loop_result [of "Suc 0" hs "r @ h" "n + length h"] by simp

lemma py_join_comma: "py_join [44] (h # hs) = h @ concat (map ((#) 44) hs)"
  by (induction hs arbitrary: h) auto

lemma sub_continuation_marker:
  assumes "g \<noteq> []" and "\<not> is_space (hd g)"
  shows "sub_continuation (continuation @ g @ rest) = 44 # sub_continuation (g @ rest)"
proof -
  from assms obtain c g' where g: "g = c # g'" and c: "\<not> is_space c" by (cases g) auto
  have sp: "is_space 10" "is_space 32" by (simp_all add: is_space_def)
  from c sp show ?thesis by (simp add: continuation_def g)
qed

lemma sub_continuation_tail:
  assumes "i \<noteq> 0"
    and "\<forall>g \<in> set hs. g \<noteq> [] \<and> (\<forall>c \<in> set g. c \<noteq> 92 \<and> \<not> is_space c)"
  shows "sub_continuation (fst (regedit_loop i hs ([], n))) = concat (map ((#) 44) hs)"
  using assms
proof (induction hs arbitrary: i n)
  case Nil
  then show ?case by simp
next
  case (Cons h hs)
  from Cons.prems have h: "h \<noteq> []" "92 \<notin> set h" "\<not> is_space (hd h)" by auto
  from Cons.prems have rest: "\<forall>g \<in> set hs. g \<noteq> [] \<and> (\<forall>c \<in> set g. c \<noteq> 92 \<and> \<not> is_space c)"
    by simp
  have ih: "\<And>m. sub_continuation (fst (regedit_loop (Suc i) hs ([], m))) = concat (map ((#) 44) hs)"
    using Cons.IH [OF _ rest] by simp
  from h have plain: "\<And>t. sub_continuation (44 # h @ t) = 44 # h @ sub_continuation t"
    using sub_continuation_append [of "44 # h"] by simp
  from h have hplain: "\<And>t. sub_continuation (h @ t) = h @ sub_continuation t"
    using sub_continuation_append [of h] by simp
  from regedit_loop_step [OF Cons.prems(1), of h hs n] obtain n' where
    "fst (regedit_loop i (h # hs) ([], n)) = 44 # h @ fst (regedit_loop (Suc i) hs ([], n')) \<or>
     fst (regedit_loop i (h # hs) ([], n)) = continuation @ h @ fst (regedit_loop (Suc i) hs ([], n'))"
    by blast
  then show ?case
  proof
    assume "fst (regedit_loop i (h # hs) ([], n)) = 44 # h @ fst (regedit_loop (Suc i) hs ([], n'))"
    then show ?thesis by (simp add: hplain ih del: regedit_loop.simps)
  next
    assume "fst (regedit_loop i (h # hs) ([], n)) =
              continuation @ h @ fst (regedit_loop (Suc i) hs ([], n'))"
    then show ?thesis
      using sub_continuation_marker [OF h(1) h(3)]
      by (simp add: hplain ih del: regedit_loop.simps)
  qed
qed

lemma sub_continuation_regedit:
  assumes "\<forall>g \<in> set hs. g \<noteq> [] \<and> (\<forall>c \<in> set g. c \<noteq> 92 \<and> \<not> is_space c)"
  shows "sub_continuation (fst (regedit_loop 0 hs ([], n))) = py_join [44] hs"
proof (cases hs)
  case Nil
  then show ?thesis by simp
next
  case (Cons h hs')
  with assms have h: "92 \<notin> set h" by auto
  from Cons assms have rest: "\<forall>g \<in> set hs'. g \<noteq> [] \<and> (\<forall>c \<in> set g. c \<noteq> 92 \<and> \<not> is_space c)"
    by simp
  have "fst (regedit_loop 0 hs ([], n)) = h @ fst (regedit_loop (Suc 0) hs' ([], n + length h))"
    unfolding Cons using regedit_loop_first [of h hs' "[]" n] by simp
  then show ?thesis
    using sub_continuation_append [OF h] sub_continuation_tail [OF _ rest, of "Suc 0"]
    by (simp add: Cons py_join_comma del: regedit_loop.simps py_join.simps)
qed

lemma hex_data_of_regedit:
  assumes "\<forall>g \<in> set hs. g \<noteq> [] \<and> (\<forall>c \<in> set g. c \<noteq> 92 \<and> \<not> is_space c)"
  shows "hex_data_of (fst (regedit_loop 0 hs (ascii ''hex(7):'', 7))) = py_join [44] hs"
proof -
  let ?w = "fst (regedit_loop 0 hs ([], 7))"
  have w: "fst (regedit_loop 0 hs (ascii ''hex(7):'', 7)) = ascii ''hex(7):'' @ ?w"
    by (rule regedit_loop_result)
  have first: "dropWhile is_space ?w = ?w"
  proof (cases hs)
    case Nil
    then show ?thesis by simp
  next
    case (Cons h hs')
    with assms have "h \<noteq> []" "\<not> is_space (hd h)" by auto
    then obtain c h' where "h = c # h'" "\<not> is_space c" by (cases h) auto
    then show ?thesis
      unfolding Cons regedit_loop_first [of h hs' "[]" 7] by simp
  qed
  have clean: "92 \<notin> set (py_join [44] hs)" "\<forall>c \<in> set (py_join [44] hs). \<not> is_space c"
  proof -
    have "\<not> is_space 44" by (simp add: is_space_def)
    with assms set_py_join [of "[44]" hs]
    show "92 \<notin> set (py_join [44] hs)" "\<forall>c \<in> set (py_join [44] hs). \<not> is_space c"
      by fastforce+
  qed
  have "sub_tag (ascii ''hex(7):'' @ ?w) = dropWhile is_space ?w"
    using has_tag_ascii [of ?w] by (simp add: sub_tag_def ascii_def)
  with first have "sub_tag (ascii ''hex(7):'' @ ?w) = ?w" by simp
  then show ?thesis
    unfolding w hex_data_of_def Let_def
    using sub_continuation_regedit [OF assms, of 7] clean
    by (simp add: sub_line_end_id filter_no_space del: regedit_loop.simps)
qed

section \<open>What the encoder writes and what the decoder parses from it\<close>

lemma styles_differ: "ascii ''regedit'' \<noteq> ascii ''compact''"
  by (simp add: ascii_def)

lemma encoded_groups:
  assumes "utf16le_encode s = Inr bs"
  shows "map hex_pair_value (map hex2 bs) = map Some bs"
  using utf16le_encode_lt [OF assms] by (induction bs) (simp_all add: hex_pair_value_hex2)

lemma encode_compact_text:
  assumes "strings \<noteq> []" and "utf16le_encode (py_join [0] strings @ [0, 0]) = Inr bs"
  shows "encode_to_hex_string (StrList strings) (ascii ''compact'') =
           Inr (ascii ''hex(7):'' @ py_join [44] (map hex2 bs))"
  using assms by (simp add: encode_to_hex_string_def)

lemma encode_regedit_text:
  assumes "strings \<noteq> []" and "utf16le_encode (py_join [0] strings @ [0, 0]) = Inr bs"
  shows "encode_to_hex_string (StrList strings) (ascii ''regedit'') =
           Inr (fst (regedit_loop 0 (map hex2 bs) (ascii ''hex(7):'', 7)))"
  using assms styles_differ by (simp add: encode_to_hex_string_def)

lemma parse_hex_bytes_regedit:
  assumes "map hex_pair_value gs = map Some bs"
  shows "parse_hex_bytes (fst (regedit_loop 0 gs (ascii ''hex(7):'', 7))) = Inr bs"
proof -
  note cl = pairs_clean [OF assms]
  have "hex_data_of (fst (regedit_loop 0 gs (ascii ''hex(7):'', 7))) = py_join [44] gs"
    using cl by (intro hex_data_of_regedit) auto
  moreover have "filter (\<lambda>b. b \<noteq> []) (map py_strip (py_split 44 (py_join [44] gs))) = gs"
    using cl by (intro fragments_of_join) auto
  ultimately have "hex_fragments (fst (regedit_loop 0 gs (ascii ''hex(7):'', 7))) = gs"
    by (simp add: hex_fragments_def)
  with parse_loop_pairs [OF assms, of "[]"] show ?thesis by (simp add: parse_hex_bytes_def)
qed

section \<open>Removing the line breaks of the wrapped style\<close>

lemma remove_all_append:
  assumes "m \<noteq> []" and "hd m \<notin> set xs"
  shows "remove_all m (xs @ ys) = xs @ remove_all m ys"
  using assms(2)
proof (induction xs)
  case Nil
  then show ?case by simp
next
  case (Cons x xs)
  from assms(1) obtain c m' where m: "m = c # m'" by (cases m) auto
  with Cons.prems have "c \<noteq> x" by auto
  with m have "take (length m) (x # xs @ ys) \<noteq> m" by auto
  with Cons show ?case by simp
qed

lemma remove_all_marker: "m \<noteq> [] \<Longrightarrow> remove_all m (m @ ys) = remove_all m ys"
  by (cases m) simp_all

lemma remove_all_tail:
  assumes "i \<noteq> 0" and "\<forall>g \<in> set hs. 92 \<notin> set g"
  shows "remove_all backslash_newline_indent (fst (regedit_loop i hs ([], n))) =
           concat (map ((#) 44) hs)"
  using assms
proof (induction hs arbitrary: i n)
  case Nil
  then show ?case by simp
next
  case (Cons h hs)
  let ?m = backslash_newline_indent
  have m: "?m \<noteq> []" "hd ?m = 92" "continuation = 44 # ?m"
    by (simp_all add: backslash_newline_indent_def continuation_def)
  from Cons.prems have h: "92 \<notin> set h" and rest: "\<forall>g \<in> set hs. 92 \<notin> set g" by auto
  have ih: "\<And>k. remove_all ?m (fst (regedit_loop (Suc i) hs ([], k))) = concat (map ((#) 44) hs)"
    using Cons.IH [OF _ rest] by simp
  from h m have plain: "\<And>t. remove_all ?m (44 # h @ t) = 44 # h @ remove_all ?m t"
    using remove_all_append [of ?m "44 # h"] by simp
  from h m have hplain: "\<And>t. remove_all ?m (h @ t) = h @ remove_all ?m t"
    using remove_all_append [of ?m h] by simp
  have marked: "\<And>t. remove_all ?m (continuation @ t) = 44 # remove_all ?m t"
    by (simp add: continuation_def backslash_newline_indent_def)
  from regedit_loop_step [OF Cons.prems(1), of h hs n] obtain n' where
    "fst (regedit_loop i (h # hs) ([], n)) = 44 # h @ fst (regedit_loop (Suc i) hs ([], n')) \<or>
     fst (regedit_loop i (h # hs) ([], n)) = continuation @ h @ fst (regedit_loop (Suc i) hs ([], n'))"
    by blast
  then show ?case
  proof
    assume "fst (regedit_loop i (h # hs) ([], n)) = 44 # h @ fst (regedit_loop (Suc i) hs ([], n'))"
    then show ?thesis by (simp only: plain ih list.map concat.simps append_Cons append_Nil)
  next
    assume "fst (regedit_loop i (h # hs) ([], n)) =
              continuation @ h @ fst (regedit_loop (Suc i) hs ([], n'))"
    then show ?thesis by (simp only: marked hplain ih list.map concat.simps append_Cons append_Nil)
  qed
qed

lemma strip_markers_regedit:
  assumes "\<forall>g \<in> set hs. \<forall>c \<in> set g. c \<noteq> 92 \<and> \<not> is_space c"
  shows "strip_markers backslash_newline_indent (fst (regedit_loop 0 hs (ascii ''hex(7):'', 7))) =
           ascii ''hex(7):'' @ py_join [44] hs"
proof -
  let ?m = backslash_newline_indent
  let ?tag = "ascii ''hex(7):''"
  have m: "?m \<noteq> []" "hd ?m = 92" by (simp_all add: backslash_newline_indent_def)
  have tag: "92 \<notin> set ?tag" "\<forall>c \<in> set ?tag. \<not> is_space c"
    by (simp_all add: ascii_def is_space_def)
  have rm: "remove_all ?m (fst (regedit_loop 0 hs (?tag, 7))) = ?tag @ py_join [44] hs"
  proof (cases hs)
    case Nil
    with tag m remove_all_append [of ?m ?tag "[]"] show ?thesis by simp
  next
    case (Cons h hs')
    with assms have h: "92 \<notin> set h" and rest: "\<forall>g \<in> set hs'. 92 \<notin> set g" by auto
    from tag h m have "hd ?m \<notin> set (?tag @ h)" by simp
    from remove_all_append [OF m(1) this]
    have "remove_all ?m ((?tag @ h) @ fst (regedit_loop (Suc 0) hs' ([], 7 + length h))) =
            (?tag @ h) @ concat (map ((#) 44) hs')"
      using remove_all_tail [OF _ rest, of "Suc 0"] by simp
    then show ?thesis
      unfolding Cons regedit_loop_first [of h hs' ?tag 7] py_join_comma by simp
  qed
  have "\<not> is_space 44" by (simp add: is_space_def)
  with assms set_py_join [of "[44]" hs] have "\<forall>c \<in> set (py_join [44] hs). \<not> is_space c"
    by fastforce
  with tag have "\<forall>c \<in> set (?tag @ py_join [44] hs). \<not> is_space c" by auto
  then have "filter (\<lambda>c. \<not> is_space c) (?tag @ py_join [44] hs) = ?tag @ py_join [44] hs"
    by (rule filter_no_space)
  with rm show ?thesis by (simp add: strip_markers_def)
qed

section \<open>Fragments that the parsing loop rejects\<close>

lemma hd_to_ascii_decimal: "c < 127 \<Longrightarrow> \<exists>t. to_ascii_decimal (c # s) = c # t"
  by (simp add: to_ascii_decimal_def)

lemma py_int16_letter_h:
  assumes "c = 104 \<or> c = 72"
  shows "py_int16 (c # s) = None"
proof -
  from assms have "c < 127" by auto
  then obtain t where t: "to_ascii_decimal (c # s) = c # t"
    using hd_to_ascii_decimal by blast
  from assms have sp: "\<not> c_isspace c" by (auto simp: c_isspace_def)
  from assms have sg: "skip_sign (c # t) = (1, c # t)" by (auto simp: skip_sign_def)
  from assms have px: "skip_0x (c # t) = c # t"
    by (cases t) (auto simp: skip_0x_def)
  from assms have dg: "hex_digit_value c = None" by (auto simp: hex_digit_value_def)
  from assms have us: "c \<noteq> 95" by auto
  from dg us have "scan_digits False 0 0 (c # t) = Some (0, 0, c # t)" by simp
  with us show ?thesis
    by (simp add: py_int16_def t sp sg px del: scan_digits.simps)
qed

lemma byte_of_letter_h: "c = 104 \<or> c = 72 \<Longrightarrow> byte_of (c # s) = None"
  by (simp add: byte_of_def py_int16_letter_h)

lemma parse_loop_reject:
  assumes "\<forall>g \<in> set pre. byte_of g \<noteq> None" and "f \<noteq> []" and "byte_of f = None"
  shows "parse_loop (pre @ f # post) acc = Inl (InvalidHexData f)"
  using assms(1)
proof (induction pre arbitrary: acc)
  case Nil
  with assms(2,3) show ?case by simp
next
  case (Cons g pre)
  then obtain b where "byte_of g = Some b" by auto
  with Cons show ?case by simp
qed

lemma hex_fragments_nonempty: "f \<in> set (hex_fragments t) \<Longrightarrow> f \<noteq> []"
  by (auto simp: hex_fragments_def)

section \<open>Properties settled by evaluation\<close>

text \<open>
  C6: the encoder called with an empty list raises the \<^verbatim>\<open>ValueError\<close> of line 90,
  whatever the style is (the style is looked at only later), and returns no text.
\<close>

theorem encode_empty_list_rejected:
  "encode_to_hex_string (StrList []) format_style = Inl EmptyStringList"
  by (simp add: encode_to_hex_string_def)

text \<open>
  C7: the compact encoding of the one-entry list \<^verbatim>\<open>["Arial"]\<close> is exactly
  \<^verbatim>\<open>hex(7):41,00,72,00,69,00,61,00,6c,00,00,00,00,00\<close>, and decoding that text gives
  \<^verbatim>\<open>["Arial"]\<close> back.
\<close>

theorem arial_compact_scenario:
  "encode_to_hex_string (StrList [ascii ''Arial'']) (ascii ''compact'') =
     Inr (ascii ''hex(7):41,00,72,00,69,00,61,00,6c,00,00,00,00,00'') \<and>
   decode_hex_string (ascii ''hex(7):41,00,72,00,69,00,61,00,6c,00,00,00,00,00'') =
     Inr [ascii ''Arial'']"
  by (simp add: eval_defs)

text \<open>
  C9: entries are not checked for emptiness.  The list holding one empty string, and the
  single empty string promoted to it, encode without error to
  \<^verbatim>\<open>hex(7):00,00,00,00\<close> in compact style; decoding that text gives the empty list, so
  encoding and then decoding does not give the list back.
\<close>

theorem empty_entry_round_trip_broken:
  "encode_to_hex_string (StrList [[]]) (ascii ''compact'') = Inr (ascii ''hex(7):00,00,00,00'') \<and>
   encode_to_hex_string (SingleStr []) (ascii ''compact'') = Inr (ascii ''hex(7):00,00,00,00'') \<and>
   decode_hex_string (ascii ''hex(7):00,00,00,00'') = Inr [] \<and>
   decode_after_encode [[]] (ascii ''compact'') \<noteq> Inr [[]]"
  by (simp add: eval_defs)

section \<open>Decoding\<close>

text \<open>
  C5: whenever the bytes parsed from the input are odd in number, the decoder fails with
  the \<^verbatim>\<open>ValueError\<close> of line 66 (the codec cannot read half a code unit); the witness
  is the input \<^verbatim>\<open>hex(7):41\<close> of the claim, whose buffer is the single byte 0x41.
\<close>

theorem odd_buffer_rejected:
  "parse_hex_bytes hex_string = Inr byte_array \<Longrightarrow> odd (length byte_array) \<Longrightarrow>
   decode_hex_string hex_string = Inl Utf16DecodeFailed"
  by (simp add: decode_hex_string_def utf16le_decode_odd)

theorem odd_buffer_rejected_witness:
  "parse_hex_bytes (ascii ''hex(7):41'') = Inr [0x41] \<and> odd (length [0x41 :: nat]) \<and>
   decode_hex_string (ascii ''hex(7):41'') = Inl Utf16DecodeFailed"
proof -
  have p: "parse_hex_bytes (ascii ''hex(7):41'') = Inr [0x41]"
    by (simp add: eval_defs)
  have o: "odd (length [0x41 :: nat])" by simp
  from odd_buffer_rejected [OF p o] p o show ?thesis by simp
qed

section \<open>Round trip\<close>

text \<open>
  C1 (as amended): for every non-empty list of non-empty strings that contain no null
  character and no surrogate code point (so that \<^verbatim>\<open>utf-16le\<close> can encode them),
  decoding the encoding gives the list back, entry for entry, in the compact and in the
  wrapped (\<^verbatim>\<open>regedit\<close>) style.
\<close>

theorem round_trip_encodable:
  assumes ne: "strings \<noteq> []"
    and ok: "\<forall>s \<in> set strings. s \<noteq> [] \<and> 0 \<notin> set s \<and> (\<forall>c \<in> set s. encodable c)"
  shows "decode_after_encode strings (ascii ''compact'') = Inr strings \<and>
         decode_after_encode strings (ascii ''regedit'') = Inr strings"
proof -
  let ?t = "py_join [0] strings @ [0, 0]"
  let ?bs = "concat (map char_bytes ?t)"
  have enc_all: "\<forall>c \<in> set ?t. encodable c"
    using set_joined_strings [of strings] ok encodable_0 by fastforce
  then have "\<forall>c \<in> set ?t. \<not> is_surrogate c" by (simp add: encodable_def)
  then have enc: "utf16le_encode ?t = Inr ?bs" by (rule utf16le_encode_bytes)
  have dec: "utf16le_decode ?bs = Inr ?t" using enc_all by (rule utf16le_decode_encoded)
  have spl: "split_strings ?t = strings" using ne ok by (intro split_strings_joined) auto
  note gs = encoded_groups [OF enc]
  have "decode_hex_string (ascii ''hex(7):'' @ py_join [44] (map hex2 ?bs)) = Inr strings"
    using parse_hex_bytes_tagged [OF gs] dec spl by (simp add: decode_hex_string_def)
  moreover have "decode_hex_string (fst (regedit_loop 0 (map hex2 ?bs) (ascii ''hex(7):'', 7))) = Inr strings"
    using parse_hex_bytes_regedit [OF gs] dec spl by (simp add: decode_hex_string_def)
  ultimately show ?thesis
    using encode_compact_text [OF ne enc] encode_regedit_text [OF ne enc]
    by (simp add: decode_after_encode_def)
qed

theorem round_trip_encodable_witness:
  "decode_after_encode [ascii ''Arial'', [0x1F600]] (ascii ''compact'') = Inr [ascii ''Arial'', [0x1F600]] \<and>
   decode_after_encode [ascii ''Arial'', [0x1F600]] (ascii ''regedit'') = Inr [ascii ''Arial'', [0x1F600]]"
proof -
  have ne: "[ascii ''Arial'', [0x1F600]] \<noteq> []" by simp
  have ok: "\<forall>s \<in> set [ascii ''Arial'', [0x1F600]]. s \<noteq> [] \<and> 0 \<notin> set s \<and> (\<forall>c \<in> set s. encodable c)"
    by (simp add: ascii_def encodable_def is_surrogate_def)
  from round_trip_encodable [OF ne ok] show ?thesis .
qed

text \<open>
  C1 as stated fails: a Python string may hold a lone surrogate, which is neither empty
  nor null; the codec refuses it at line 94 and the encoder raises in both styles, so
  nothing is decoded.
\<close>

theorem round_trip_surrogate_counterexample:
  "decode_after_encode [[0xD800]] (ascii ''compact'') = Inl (Utf16EncodeFailed 0xD800) \<and>
   decode_after_encode [[0xD800]] (ascii ''regedit'') = Inl (Utf16EncodeFailed 0xD800) \<and>
   decode_after_encode [[0xD800]] (ascii ''compact'') \<noteq> Inr [[0xD800]]"
  by (simp add: eval_defs)

section \<open>The two styles\<close>

text \<open>
  C8 (as amended): for every input, removing from the wrapped (\<^verbatim>\<open>regedit\<close>) text every
  backslash-newline-indent sequence (the continuation without its comma) and all
  whitespace gives exactly the compact text: both styles render the same byte groups,
  joined by commas, after the same tag.  When the encoder raises, it raises the same
  error in both styles.
\<close>

theorem wrapped_without_line_breaks_is_compact:
  "map_sum id (strip_markers backslash_newline_indent)
     (encode_to_hex_string arg (ascii ''regedit'')) =
   encode_to_hex_string arg (ascii ''compact'')"
proof -
  define strings where "strings = (case arg of SingleStr s \<Rightarrow> [s] | StrList l \<Rightarrow> l)"
  have arg: "\<And>st. encode_to_hex_string arg st = encode_to_hex_string (StrList strings) st"
    by (simp add: encode_to_hex_string_def strings_def)
  show ?thesis
  proof (cases "strings = []")
    case True
    then show ?thesis by (simp only: arg) (simp add: encode_to_hex_string_def)
  next
    case ne: False
    show ?thesis
    proof (cases "utf16le_encode (py_join [0] strings @ [0, 0])")
      case (Inl e)
      with ne show ?thesis by (simp only: arg) (simp add: encode_to_hex_string_def)
    next
      case (Inr bs)
      from pairs_clean [OF encoded_groups [OF Inr]]
      have "\<forall>g \<in> set (map hex2 bs). \<forall>c \<in> set g. c \<noteq> 92 \<and> \<not> is_space c" by blast
      from strip_markers_regedit [OF this] show ?thesis
        by (simp only: arg) (simp add: encode_compact_text [OF ne Inr] encode_regedit_text [OF ne Inr])
    qed
  qed
qed

text \<open>
  C8 as stated fails: the marker it removes is the whole continuation of line 112, comma
  included, so the two byte groups around every line break run together and the text
  left is not the compact one.  The list of one string of ten letters \<^verbatim>\<open>A\<close> has 24 byte
  groups and one line break.
\<close>

theorem strip_comma_marker_counterexample:
  "map_sum id (strip_markers continuation)
     (encode_to_hex_string (StrList [ascii ''AAAAAAAAAA'']) (ascii ''regedit'')) \<noteq>
   encode_to_hex_string (StrList [ascii ''AAAAAAAAAA'']) (ascii ''compact'')"
  by (simp add: eval_defs)

section \<open>The tag and the fragments\<close>

text \<open>
  C3 (as amended): the tag is recognised at the very start of the input only.  When
  whitespace comes before the tag, the substitution of line 46 does not match, the tag stays
  in the text and becomes the beginning of the first fragment, which \<^verbatim>\<open>int\<close> rejects:
  for every non-empty whitespace prefix and every text that begins with the tag (in any
  case), the decoder fails with the \<^verbatim>\<open>ValueError\<close> of line 61, carrying a fragment that
  begins with the first letter of the tag.
\<close>

theorem tag_after_whitespace_rejected:
  assumes p: "p \<noteq> []" "\<forall>c \<in> set p. is_space c" and h: "has_tag h"
  shows "\<exists>f. decode_hex_string (p @ h) = Inl (InvalidHexData (hd h # f))"
proof -
  from h obtain c cs where hc: "h = c # cs" and c: "c = 104 \<or> c = 72"
    using has_tag_head [OF h] by (cases h) auto
  from c have cns: "\<not> is_space c" "c \<noteq> 92" "c \<noteq> 44" by (auto simp: is_space_def)
  have p92: "92 \<notin> set p" using p(2) by (auto simp: is_space_def)
  have "\<not> has_tag (p @ h)"
  proof
    assume "has_tag (p @ h)"
    from has_tag_head [OF this] p(1) have "hd p = 104 \<or> hd p = 72" by simp
    moreover from p have "is_space (hd p)" by simp
    ultimately show False by (auto simp: is_space_def)
  qed
  then have s1: "sub_tag (p @ h) = p @ c # cs" by (simp add: sub_tag_def hc)
  from p92 cns have "92 \<notin> set (p @ [c])" by simp
  from sub_continuation_append [OF this, of cs]
  have s2: "sub_continuation (p @ c # cs) = p @ c # sub_continuation cs" by simp
  from \<open>92 \<notin> set (p @ [c])\<close> sub_line_end_append [of "p @ [c]" "sub_continuation cs"]
  have s3: "sub_line_end (p @ c # sub_continuation cs) = p @ c # sub_line_end (sub_continuation cs)"
    by simp
  define z where "z = filter (\<lambda>c. \<not> is_space c) (sub_line_end (sub_continuation cs))"
  from p(2) have "filter (\<lambda>c. \<not> is_space c) p = []" by (simp add: filter_empty_conv)
  with cns have data: "hex_data_of (p @ h) = c # z"
    by (simp add: hex_data_of_def s1 s2 s3 z_def)
  have zns: "\<forall>d \<in> set (c # z). \<not> is_space d" using cns by (auto simp: z_def)
  from py_split_head [OF cns(3), of z] obtain f fs where
    sp: "py_split 44 (c # z) = (c # f) # fs" by blast
  then have "c # f \<in> set (py_split 44 (c # z))" by simp
  from py_split_chars [OF this] zns have "\<forall>d \<in> set (c # f). \<not> is_space d" by blast
  then have "py_strip (c # f) = c # f" by (rule py_strip_no_space)
  with sp data have "hex_fragments (p @ h) =
      (c # f) # filter (\<lambda>b. b \<noteq> []) (map py_strip fs)"
    by (simp add: hex_fragments_def)
  then have "parse_hex_bytes (p @ h) = Inl (InvalidHexData (c # f))"
    using byte_of_letter_h [OF c, of f] by (simp add: parse_hex_bytes_def)
  then show ?thesis by (auto simp: decode_hex_string_def hc)
qed

theorem tag_after_whitespace_rejected_witness:
  "is_space 32 \<and> has_tag (ascii ''hex(7):41,00,00,00'') \<and>
   decode_hex_string ([32] @ ascii ''hex(7):41,00,00,00'') = Inl (InvalidHexData (ascii ''hex(7):41''))"
proof -
  have a: "[32 :: nat] \<noteq> []" by simp
  have s: "is_space 32" by (simp add: is_space_def)
  then have b: "\<forall>c \<in> set [32]. is_space c" by simp
  have c: "has_tag (ascii ''hex(7):41,00,00,00'')" by (simp add: has_tag_def ascii_def)
  from tag_after_whitespace_rejected [OF a b c] obtain f where
    "decode_hex_string ([32] @ ascii ''hex(7):41,00,00,00'') =
       Inl (InvalidHexData (hd (ascii ''hex(7):41,00,00,00'') # f))" by blast
  moreover have "decode_hex_string ([32] @ ascii ''hex(7):41,00,00,00'') =
       Inl (InvalidHexData (ascii ''hex(7):41''))"
    by (simp add: eval_defs)
  ultimately show ?thesis using s c by simp
qed

text \<open>
  C3 as stated fails: one blank before a valid encoding turns a successful decoding into
  an error.
\<close>

theorem tag_after_blank_counterexample:
  "decode_hex_string (ascii ''hex(7):41,00,00,00'') = Inr [ascii ''A''] \<and>
   decode_hex_string (ascii '' hex(7):41,00,00,00'') = Inl (InvalidHexData (ascii ''hex(7):41''))"
  by (simp add: eval_defs)

text \<open>
  C4 (as amended): the malformed fragments are those that \<^verbatim>\<open>int(fragment, 16)\<close>
  rejects or whose value is outside 0 to 255 (\<open>byte_of\<close> is \<open>None\<close>).  The first such
  fragment, in the order of the input, ends the decoding with the \<^verbatim>\<open>ValueError\<close> of
  line 61 carrying that fragment; none is skipped.
\<close>

theorem first_rejected_fragment_reported:
  assumes "hex_fragments hex_string = pre @ f # post"
    and "\<forall>g \<in> set pre. byte_of g \<noteq> None"
    and "byte_of f = None"
  shows "decode_hex_string hex_string = Inl (InvalidHexData f)"
proof -
  from assms(1) have "f \<in> set (hex_fragments hex_string)" by simp
  then have "f \<noteq> []" by (rule hex_fragments_nonempty)
  from parse_loop_reject [OF assms(2) this assms(3), of post "[]"] assms(1)
  show ?thesis by (simp add: decode_hex_string_def parse_hex_bytes_def)
qed

theorem first_rejected_fragment_reported_witness:
  "hex_fragments (ascii ''hex(7):41,zz,00'') = [ascii ''41''] @ ascii ''zz'' # [ascii ''00''] \<and>
   byte_of (ascii ''41'') = Some 0x41 \<and>
   byte_of (ascii ''zz'') = None \<and>
   decode_hex_string (ascii ''hex(7):41,zz,00'') = Inl (InvalidHexData (ascii ''zz''))"
proof -
  have a: "hex_fragments (ascii ''hex(7):41,zz,00'') = [ascii ''41''] @ ascii ''zz'' # [ascii ''00'']"
    by (simp add: eval_defs)
  have v: "byte_of (ascii ''41'') = Some 0x41"
    by (simp add: eval_defs)
  then have b: "\<forall>g \<in> set [ascii ''41'']. byte_of g \<noteq> None" by simp
  have c: "byte_of (ascii ''zz'') = None"
    by (simp add: eval_defs)
  from first_rejected_fragment_reported [OF a b c] a v c show ?thesis by blast
qed

text \<open>
  C4 as stated fails: \<^verbatim>\<open>int\<close> reads more than two hexadecimal digits.  The fragments
  \<^verbatim>\<open>0x41\<close> and \<^verbatim>\<open>+41\<close> are both taken as the byte 0x41, and the input decodes to
  \<^verbatim>\<open>["AA"]\<close>.
\<close>

theorem lenient_fragment_counterexample:
  "decode_hex_string (ascii ''hex(7):0x41,00,+41,00,00,00'') = Inr [ascii ''AA'']"
  by (simp add: eval_defs)

section \<open>Line lengths of the wrapped style\<close>

text \<open>
  The variable \<^verbatim>\<open>line_length\<close> is the length of the line being written, and the test
  of line 111 keeps it at 75 or below; the comma and the backslash that close a line
  come on top of it.  A continuation line starts at 4 characters and grows by 3, so it
  stops at 73 and is closed at 75; the first line starts at 9 and is closed at up to 77.
\<close>

lemma py_split_snoc_plain:
  "sep \<notin> set x \<Longrightarrow>
   py_split sep (r @ x) = butlast (py_split sep r) @ [last (py_split sep r) @ x]"
proof (induction r)
  case Nil
  then show ?case by (simp add: py_split_no_sep)
next
  case (Cons c r)
  obtain f fs where sp: "py_split sep r = f # fs"
    using py_split_nonempty [of sep r] by (cases "py_split sep r") auto
  obtain g gs where sp': "py_split sep (r @ x) = g # gs"
    using py_split_nonempty [of sep "r @ x"] by (cases "py_split sep (r @ x)") auto
  from Cons sp sp' show ?case by (cases fs) (auto split: if_splits)
qed

lemma py_split_snoc_sep:
  "py_split sep (r @ [sep]) = py_split sep r @ [[]]"
proof (induction r)
  case Nil
  then show ?case by simp
next
  case (Cons c r)
  obtain f fs where sp: "py_split sep r = f # fs"
    using py_split_nonempty [of sep r] by (cases "py_split sep r") auto
  with Cons show ?case by auto
qed

lemma regedit_loop_lines:
  assumes "\<forall>h \<in> set hs. length h = 2 \<and> 10 \<notin> set h"
    and "py_split 10 r = closed @ [open_line]"
    and "length open_line = n" and "n \<le> 75"
    and "i \<noteq> 0"
    and "closed \<noteq> [] \<longrightarrow> n mod 3 = 1"
    and "\<forall>l \<in> set (tl closed). length l \<le> 75"
    and "closed \<noteq> [] \<longrightarrow> length (hd closed) \<le> 77"
  shows "\<exists>first rest. line_lengths (fst (regedit_loop i hs (r, n))) = first # rest \<and>
           first \<le> 77 \<and> (\<forall>l \<in> set rest. l \<le> 75)"
  using assms
proof (induction hs arbitrary: i r n closed open_line)
  case Nil
  show ?case
  proof (cases closed)
    case Nil
    with Nil.prems show ?thesis by (simp add: line_lengths_def)
  next
    case (Cons c cs)
    with Nil.prems show ?thesis by (simp add: line_lengths_def)
  qed
next
  case (Cons h hs)
  from Cons.prems(1) have h: "length h = 2" "10 \<notin> set h"
    and rest: "\<forall>h \<in> set hs. length h = 2 \<and> 10 \<notin> set h" by auto
  show ?case
  proof (cases "n + 3 > 75")
    case False
    have step: "regedit_loop i (h # hs) (r, n) = regedit_loop (Suc i) hs (r @ 44 # h, n + 3)"
      using False Cons.prems(5) h by (simp add: Let_def max_line_length_def)
    from h have "10 \<notin> set (44 # h)" by simp
    from py_split_snoc_plain [OF this, of r] Cons.prems(2)
    have sp: "py_split 10 (r @ 44 # h) = closed @ [open_line @ 44 # h]" by simp
    have len: "length (open_line @ 44 # h) = n + 3" using Cons.prems(3) h by simp
    have m: "closed \<noteq> [] \<longrightarrow> (n + 3) mod 3 = 1" using Cons.prems(6) by simp
    from False have le: "n + 3 \<le> 75" by simp
    from Cons.IH [OF rest sp len le _ m Cons.prems(7) Cons.prems(8), of "Suc i"]
    show ?thesis unfolding step by simp
  next
    case True
    have step: "regedit_loop i (h # hs) (r, n) =
                  regedit_loop (Suc i) hs (r @ continuation @ h, 4)"
      using True Cons.prems(5) h by (simp add: Let_def max_line_length_def)
    have e: "r @ continuation @ h = (r @ [44, 92, 10]) @ 32 # 32 # h"
      by (simp add: continuation_def)
    have "py_split 10 ((r @ [44, 92]) @ [10]) = py_split 10 (r @ [44, 92]) @ [[]]"
      by (rule py_split_snoc_sep)
    moreover have "py_split 10 (r @ [44, 92]) = closed @ [open_line @ [44, 92]]"
      using py_split_snoc_plain [of 10 "[44, 92]" r] Cons.prems(2) by simp
    ultimately have a: "py_split 10 (r @ [44, 92, 10]) = closed @ [open_line @ [44, 92], []]"
      by simp
    from h have "10 \<notin> set (32 # 32 # h)" by simp
    from py_split_snoc_plain [OF this, of "r @ [44, 92, 10]"]
    have sp: "py_split 10 (r @ continuation @ h) =
        (closed @ [open_line @ [44, 92]]) @ [32 # 32 # h]"
      unfolding e a by (simp add: butlast_append)
    have len: "length (32 # 32 # h) = 4" using h by simp
    have m: "closed @ [open_line @ [44, 92]] \<noteq> [] \<longrightarrow> (4 :: nat) mod 3 = 1" by simp
    have nl: "length (open_line @ [44, 92]) = n + 2" using Cons.prems(3) by simp
    have tl_ok: "\<forall>l \<in> set (tl (closed @ [open_line @ [44, 92]])). length l \<le> 75"
    proof (cases closed)
      case Nil
      then show ?thesis by simp
    next
      case (Cons c cs)
      with Cons.prems(6) have "n mod 3 = 1" by simp
      with Cons.prems(4) have "n \<le> 73" by presburger
      with Cons Cons.prems(7) nl show ?thesis by auto
    qed
    have hd_ok: "closed @ [open_line @ [44, 92]] \<noteq> [] \<longrightarrow>
                   length (hd (closed @ [open_line @ [44, 92]])) \<le> 77"
      using Cons.prems(4,8) nl by (cases closed) auto
    from Cons.IH [OF rest sp len _ _ m tl_ok hd_ok, of "Suc i"]
    show ?thesis unfolding step by simp
  qed
qed

lemma regedit_line_lengths:
  assumes "\<forall>h \<in> set hs. length h = 2 \<and> 10 \<notin> set h"
  shows "\<exists>first rest. line_lengths (fst (regedit_loop 0 hs (ascii ''hex(7):'', 7))) = first # rest \<and>
           first \<le> 77 \<and> (\<forall>l \<in> set rest. l \<le> 75)"
proof (cases hs)
  case Nil
  then show ?thesis by (simp add: line_lengths_def ascii_def)
next
  case (Cons h hs')
  with assms have h: "length h = 2" "10 \<notin> set h"
    and rest: "\<forall>h \<in> set hs'. length h = 2 \<and> 10 \<notin> set h" by auto
  have step: "regedit_loop 0 hs (ascii ''hex(7):'', 7) =
                regedit_loop (Suc 0) hs' (ascii ''hex(7):'' @ h, 9)"
    using h by (simp add: Cons)
  from h have "10 \<notin> set (ascii ''hex(7):'' @ h)" by (simp add: ascii_def)
  then have sp: "py_split 10 (ascii ''hex(7):'' @ h) = [] @ [ascii ''hex(7):'' @ h]"
    by (simp add: py_split_no_sep)
  have len: "length (ascii ''hex(7):'' @ h) = 9" using h by (simp add: ascii_def)
  from regedit_loop_lines [OF rest sp len, of "Suc 0"]
  show ?thesis unfolding step by simp
qed

lemma hex2_shape: "length (hex2 b) = 2 \<and> 10 \<notin> set (hex2 b)"
  by (simp add: hex2_def hex_char_def)

lemma regedit_output_line_lengths:
  assumes "encode_to_hex_string arg (ascii ''regedit'') = Inr w"
  shows "\<exists>first rest. line_lengths w = first # rest \<and> first \<le> 77 \<and> (\<forall>l \<in> set rest. l \<le> 75)"
proof -
  define strings where "strings = (case arg of SingleStr s \<Rightarrow> [s] | StrList l \<Rightarrow> l)"
  from assms obtain bs where
    w: "w = fst (regedit_loop 0 (map hex2 bs) (ascii ''hex(7):'', 7))"
    using styles_differ
    by (auto simp: encode_to_hex_string_def strings_def Let_def split: if_splits sum.splits)
  have "\<forall>h \<in> set (map hex2 bs). length h = 2 \<and> 10 \<notin> set h"
    using hex2_shape by simp
  from regedit_line_lengths [OF this] show ?thesis unfolding w .
qed

text \<open>
  C2: the list of one string of ten letters \<^verbatim>\<open>A\<close> has 24 byte groups.  The first
  line takes the tag and 23 groups, 75 characters, before the test of line 111 asks for
  a continuation; the comma and the backslash of line 112 are then added to it, and the
  first physical line is 77 characters long, above \<^verbatim>\<open>max_line_length\<close>.
\<close>

theorem regedit_first_line_77:
  "map_sum id line_lengths
     (encode_to_hex_string (StrList [ascii ''AAAAAAAAAA'']) (ascii ''regedit'')) = Inr [77, 4]"
  by (simp add: eval_defs)

section \<open>Decoding without the tag\<close>

text \<open>
  What lines 68 to 70 return are the entries of the decoded text: stripping the trailing
  null characters, splitting at the null character and dropping the empty pieces leaves
  the maximal runs of other characters.
\<close>

lemma py_split_run:
  "py_split sep cs =
     takeWhile (\<lambda>x. x \<noteq> sep) cs #
       (case dropWhile (\<lambda>x. x \<noteq> sep) cs of [] \<Rightarrow> [] | z # r \<Rightarrow> py_split sep r)"
proof (induction cs)
  case Nil
  then show ?case by simp
next
  case (Cons c cs)
  then show ?case by (cases "c = sep") simp_all
qed

lemma nonempty_fragments_entries:
  "filter (\<lambda>s. s \<noteq> []) (py_split 0 u) = entries_of u"
proof (induction u rule: entries_of.induct)
  case 1
  then show ?case by simp
next
  case (2 c cs)
  show ?case
  proof (cases "c = 0")
    case True
    with 2 show ?thesis by simp
  next
    case False
    let ?d = "dropWhile (\<lambda>x. x \<noteq> 0) cs"
    have ih: "filter (\<lambda>s. s \<noteq> []) (py_split 0 ?d) = entries_of ?d"
      using 2(2) [OF False] .
    have split: "py_split 0 (c # cs) =
        takeWhile (\<lambda>x. x \<noteq> 0) (c # cs) # (case ?d of [] \<Rightarrow> [] | z # r \<Rightarrow> py_split 0 r)"
      using py_split_run [of 0 "c # cs"] False by (simp del: neq0_conv)
    have tail: "filter (\<lambda>s. s \<noteq> []) (case ?d of [] \<Rightarrow> [] | z # r \<Rightarrow> py_split 0 r) =
                  filter (\<lambda>s. s \<noteq> []) (py_split 0 ?d)"
    proof (cases ?d)
      case Nil
      show ?thesis unfolding Nil by simp
    next
      case (Cons z r)
      then have "z = 0" using hd_dropWhile [of "\<lambda>x. x \<noteq> 0" cs] by auto
      then show ?thesis unfolding Cons by simp
    qed
    from False show ?thesis
      by (simp only: split) (simp add: tail ih del: neq0_conv)
  qed
qed

lemma rstrip_nul_snoc:
  "rstrip_nul (u @ [c]) = (if c = 0 then rstrip_nul u else u @ [c])"
  by (simp add: rstrip_nul_def)

lemma nonempty_fragments_rstrip:
  "filter (\<lambda>s. s \<noteq> []) (py_split 0 (rstrip_nul u)) = filter (\<lambda>s. s \<noteq> []) (py_split 0 u)"
proof (induction u rule: rev_induct)
  case Nil
  then show ?case by (simp add: rstrip_nul_def)
next
  case (snoc c u)
  show ?case
  proof (cases "c = 0")
    case True
    with snoc show ?thesis
      by (simp add: rstrip_nul_snoc py_split_snoc_sep)
  next
    case False
    then show ?thesis by (simp add: rstrip_nul_snoc)
  qed
qed

lemma split_strings_entries: "split_strings u = entries_of u"
  by (simp only: split_strings_def nonempty_fragments_rstrip) (simp only: nonempty_fragments_entries)

text \<open>
  C10 (as amended): the tag is not required.  For every input that is nothing but groups
  of two hexadecimal digits (either case) joined by commas, with no tag, whose bytes are
  well-formed UTF-16LE, that is the encoding of a text without surrogate code points, the
  decoder succeeds and returns the string list decoded from those bytes: the entries of
  that text, in order.  The witness decodes \<^verbatim>\<open>41,00,00,00\<close> to \<^verbatim>\<open>["A"]\<close> and
  \<^verbatim>\<open>41,00,00,00,6C,00\<close> to \<^verbatim>\<open>["A", "l"]\<close>.
\<close>

theorem untagged_groups_decoded:
  assumes "map hex_pair_value groups = map Some (concat (map char_bytes decoded_string))"
    and "\<forall>c \<in> set decoded_string. encodable c"
  shows "decode_hex_string (py_join [44] groups) = Inr (entries_of decoded_string)"
  using parse_hex_bytes_untagged [OF assms(1)] utf16le_decode_encoded [OF assms(2)]
  by (simp add: decode_hex_string_def split_strings_entries)

theorem untagged_groups_decoded_witness:
  "py_join [44] [ascii ''41'', ascii ''00'', ascii ''00'', ascii ''00'', ascii ''6C'', ascii ''00''] =
     ascii ''41,00,00,00,6C,00'' \<and>
   entries_of [0x41, 0, 0x6C] = [ascii ''A'', ascii ''l''] \<and>
   decode_hex_string (ascii ''41,00,00,00,6C,00'') = Inr [ascii ''A'', ascii ''l''] \<and>
   decode_hex_string (ascii ''41,00,00,00'') = Inr [ascii ''A'']"
proof -
  have g: "map hex_pair_value [ascii ''41'', ascii ''00'', ascii ''00'', ascii ''00'', ascii ''6C'', ascii ''00''] =
             map Some (concat (map char_bytes [0x41, 0, 0x6C]))"
    by (simp add: eval_defs)
  have e: "\<forall>c \<in> set [0x41, 0, 0x6C]. encodable c"
    by (simp add: eval_defs)
  have j: "py_join [44] [ascii ''41'', ascii ''00'', ascii ''00'', ascii ''00'', ascii ''6C'', ascii ''00''] =
             ascii ''41,00,00,00,6C,00''"
    by (simp add: eval_defs)
  have r: "entries_of [0x41, 0, 0x6C] = [ascii ''A'', ascii ''l'']"
    by (simp add: eval_defs)
  have g2: "map hex_pair_value [ascii ''41'', ascii ''00'', ascii ''00'', ascii ''00''] =
             map Some (concat (map char_bytes [0x41, 0]))"
    by (simp add: eval_defs)
  have e2: "\<forall>c \<in> set [0x41, 0]. encodable c"
    by (simp add: eval_defs)
  have j2: "py_join [44] [ascii ''41'', ascii ''00'', ascii ''00'', ascii ''00''] = ascii ''41,00,00,00''"
    by (simp add: eval_defs)
  have r2: "entries_of [0x41, 0] = [ascii ''A'']"
    by (simp add: eval_defs)
  from untagged_groups_decoded [OF g e]
  have d: "decode_hex_string (ascii ''41,00,00,00,6C,00'') = Inr [ascii ''A'', ascii ''l'']"
    unfolding j r .
  from untagged_groups_decoded [OF g2 e2]
  have d2: "decode_hex_string (ascii ''41,00,00,00'') = Inr [ascii ''A'']"
    unfolding j2 r2 .
  from j r d d2 show ?thesis by blast
qed

text \<open>
  C10 as stated fails: valid groups need not make a buffer that the codec accepts.  The
  single group \<^verbatim>\<open>41\<close> is one byte, half a code unit, and the two groups
  \<^verbatim>\<open>00,d8\<close> are a high surrogate with nothing after it; the decoder raises the
  \<^verbatim>\<open>ValueError\<close> of line 66 on both.
\<close>

theorem untagged_ill_formed_counterexample:
  "hex_pair_value (ascii ''41'') = Some 0x41 \<and>
   decode_hex_string (ascii ''41'') = Inl Utf16DecodeFailed \<and>
   map hex_pair_value [ascii ''00'', ascii ''d8''] = [Some 0, Some 0xD8] \<and>
   decode_hex_string (ascii ''00,d8'') = Inl Utf16DecodeFailed"
  by (simp add: eval_defs)

end
